theory Spec2Isabelle
  imports Main "HOL-Library.Word"
begin

unbundle bit_operations_syntax

section \<open>The gpiocount module: data\<close>

text \<open>
  The module keeps its whole state in file-scope variables of \<^verbatim>\<open>gpiocount.c\<close>. They are
  collected in one record that every operation takes and returns. \<^verbatim>\<open>uint8_t\<close> is
  \<open>8 word\<close>, \<^verbatim>\<open>unsigned int\<close> and \<^verbatim>\<open>uint32_t\<close> are \<open>32 word\<close>.
\<close>

type_synonym u8 = "8 word"
type_synonym u32 = "32 word"

text \<open>One entry of \<^verbatim>\<open>led_values[MAX_LEDS]\<close>.\<close>

record led =
  on :: bool
  gpio :: u8

text \<open>
  The GPIO and interrupt layer of the kernel is not part of the module. Every call the
  module makes into it is appended to a log (oldest call first); \<^verbatim>\<open>request_irq\<close> is
  logged together with the result it gave.
\<close>

datatype hw_call =
    Gpio_set_value u8 bool
  | Gpio_free u8
  | Gpio_unexport u8
  | Gpio_direction_output u8 bool
  | Gpio_direction_input u8
  | Gpio_set_debounce u8 nat
  | Gpio_to_irq u8
  | Request_irq u32 int
  | Free_irq u32

text \<open>
  The global variables. The C variable \<^verbatim>\<open>value\<close> is the field \<open>value_c\<close>.
  \<open>led_values\<close> is the array of \<^verbatim>\<open>MAX_LEDS\<close> entries.
\<close>

record gstate =
  enable_gpio :: bool
  led_count :: u8
  led_values :: "led list"
  gpio_increment_button :: u8
  value_c :: u8
  max_value :: u8
  max_possible :: u8
  last_interrupt_time_msec :: u32
  increment_irq :: u32
  hw_log :: "hw_call list"

text \<open>
  What the module cannot decide itself: the answers of the kernel's GPIO and interrupt
  layer, and the contents of the local variables the C code reads before writing them
  (\<^verbatim>\<open>ttt\<close> in \<^verbatim>\<open>assign_leds\<close> and \<^verbatim>\<open>t\<close> in the sysfs store functions when
  \<^verbatim>\<open>sscanf\<close> converts nothing, and \<^verbatim>\<open>j\<close> in \<^verbatim>\<open>for (uint8_t j = j; ...)\<close>).
\<close>

record env =
  gpio_is_valid :: "u8 \<Rightarrow> bool"
  gpio_to_irq :: "u8 \<Rightarrow> u32"
  request_irq :: "u32 \<Rightarrow> int"
  uninit_ttt :: "nat \<Rightarrow> u32"
  uninit_t :: u32
  uninit_j :: u8

definition MAX_LEDS :: u8 where
  "MAX_LEDS = 8"

definition GPIO_MAX_DIGITS :: nat where
  "GPIO_MAX_DIGITS = 3"

definition EPERM :: int where "EPERM = 1"
definition ENODEV :: int where "ENODEV = 19"
definition EINVAL :: int where "EINVAL = 22"

text \<open>The state after \<^verbatim>\<open>gpiocount_init\<close> on a freshly loaded module.\<close>

definition init_state :: "bool \<Rightarrow> gstate" where
  "init_state en =
     \<lparr>enable_gpio = en, led_count = 0,
      led_values = replicate 8 \<lparr>on = False, gpio = 0\<rparr>,
      gpio_increment_button = 0, value_c = 0, max_value = 0, max_possible = 0,
      last_interrupt_time_msec = 0, increment_irq = 0, hw_log = []\<rparr>"

definition hw :: "hw_call list \<Rightarrow> gstate \<Rightarrow> gstate" where
  "hw cs s = s\<lparr>hw_log := hw_log s @ cs\<rparr>"

section \<open>Counter\<close>

text \<open>\<^verbatim>\<open>increment_maybe_wrap\<close>: the result is the returned flag and the new state.\<close>

definition increment_maybe_wrap :: "gstate \<Rightarrow> bool \<times> gstate" where
  "increment_maybe_wrap s =
     (if value_c s < max_possible s then
        (let s1 = s\<lparr>value_c := value_c s + 1\<rparr>;
             s2 = (if value_c s1 > max_value s1 then s1\<lparr>max_value := max_value s1 + 1\<rparr> else s1)
         in (False, s2))
      else (True, s\<lparr>value_c := 0\<rparr>))"

definition zero_counters :: "gstate \<Rightarrow> gstate" where
  "zero_counters s = s\<lparr>value_c := 0, max_possible := 0\<rparr>"

text \<open>
  A counting loop \<^verbatim>\<open>for (i = i0; i < n; i++) body\<close> whose body neither changes
  \<open>i\<close> or \<open>n\<close> nor leaves the loop.
\<close>

function for_loop :: "nat \<Rightarrow> nat \<Rightarrow> (nat \<Rightarrow> 's \<Rightarrow> 's) \<Rightarrow> 's \<Rightarrow> 's" where
  "for_loop i n body s = (if i < n then for_loop (Suc i) n body (body i s) else s)"
  by pat_completeness auto
termination
  by (relation "measure (\<lambda>(i, n, body, s). n - i)") auto

declare for_loop.simps [simp del]

text \<open>
  \<^verbatim>\<open>setup_max_possible\<close>. The loop body is
  \<^verbatim>\<open>max_possible = (max_possible << 1) | 1\<close>, stored back into eight bits.
\<close>

definition shift_one_in :: "nat \<Rightarrow> gstate \<Rightarrow> gstate" where
  "shift_one_in i s = s\<lparr>max_possible := push_bit 1 (max_possible s) OR 1\<rparr>"

definition setup_max_possible :: "gstate \<Rightarrow> gstate" where
  "setup_max_possible s =
     (let s1 = s\<lparr>max_possible := 0\<rparr>;
          s2 = for_loop 0 (unat (led_count s1)) shift_one_in s1
      in if value_c s2 > max_possible s2 then s2\<lparr>value_c := 0\<rparr> else s2)"

section \<open>LED output\<close>

text \<open>
  \<^verbatim>\<open>set_leds_from_value\<close>. The first loop shifts the low bit out of \<^verbatim>\<open>bits\<close> into
  \<^verbatim>\<open>led_values[i].on\<close>; its state is the pair of \<^verbatim>\<open>bits\<close> and the array. The second
  loop runs only when GPIO is enabled. The module keeps \<open>led_count \<le> MAX_LEDS\<close>, so
  every index is inside the array.
\<close>

definition shift_bit_out :: "nat \<Rightarrow> u8 \<times> led list \<Rightarrow> u8 \<times> led list" where
  "shift_bit_out i = (\<lambda>(bits, lv).
     (let bit = bits AND 1;
          bits' = drop_bit 1 bits
      in (bits', lv[i := (lv ! i)\<lparr>on := (bit = 1)\<rparr>])))"

definition write_led :: "nat \<Rightarrow> gstate \<Rightarrow> gstate" where
  "write_led i s =
     hw [Gpio_set_value (gpio (led_values s ! i)) (on (led_values s ! i))] s"

definition set_leds_from_value :: "gstate \<Rightarrow> gstate" where
  "set_leds_from_value s =
     (let s1 = s\<lparr>led_values :=
                  snd (for_loop 0 (unat (led_count s)) shift_bit_out (value_c s, led_values s))\<rparr>
      in if enable_gpio s1 then for_loop 0 (unat (led_count s1)) write_led s1 else s1)"

section \<open>Reading an unsigned decimal number\<close>

text \<open>
  \<^verbatim>\<open>sscanf(buf, "%u", &t)\<close> is the kernel's, not the module's. It skips white space and
  then reads the longest run of decimal digits; with no digit there it stores nothing,
  so \<^verbatim>\<open>t\<close> keeps what it held. The number is accumulated in 64 bits and stored in
  the 32-bit variable. A C string ends at its first NUL character.
\<close>

definition c_str :: "string \<Rightarrow> string" where
  "c_str buf = takeWhile (\<lambda>c. c \<noteq> CHR 0x00) buf"

definition isspace :: "char \<Rightarrow> bool" where
  "isspace c = (c \<in> set [CHR 0x20, CHR 0x09, CHR 0x0A, CHR 0x0B, CHR 0x0C, CHR 0x0D, CHR 0xA0])"

definition isdigit :: "char \<Rightarrow> bool" where
  "isdigit c = (48 \<le> (of_char c :: nat) \<and> (of_char c :: nat) \<le> 57)"

definition digit_val :: "char \<Rightarrow> nat" where
  "digit_val c = of_char c - 48"

fun strtoull :: "nat \<Rightarrow> string \<Rightarrow> nat" where
  "strtoull acc [] = acc"
| "strtoull acc (c # cs) =
     (if isdigit c then strtoull (acc * 10 + digit_val c) cs else acc)"

definition sscanf_u :: "string \<Rightarrow> u32 \<Rightarrow> u32" where
  "sscanf_u buf t =
     (case dropWhile isspace (c_str buf) of
        [] \<Rightarrow> t
      | c # cs \<Rightarrow>
          if isdigit c then ucast (word_of_nat (strtoull 0 (c # cs)) :: 64 word) else t)"

section \<open>Assigning the LED pins\<close>

text \<open>
  The scan of the descriptor in \<^verbatim>\<open>assign_leds\<close>. \<open>digs\<close> is the contents of
  \<^verbatim>\<open>gpio_digits\<close> below \<^verbatim>\<open>next_digit\<close>, so \<^verbatim>\<open>next_digit\<close> is its length. The
  character under \<^verbatim>\<open>curr\<close> is the head of the remaining text, and NUL at its end.
  The scan either returns from \<^verbatim>\<open>assign_leds\<close> with an error code or leaves the loop.
\<close>

datatype scan_result = Scan_return int gstate | Scan_break gstate

definition add_led :: "env \<Rightarrow> string \<Rightarrow> gstate \<Rightarrow> gstate" where
  "add_led e digs s =
     (let ttt = sscanf_u digs (uninit_ttt e (unat (led_count s)));
          n = unat (led_count s)
      in s\<lparr>led_values := (led_values s)[n := \<lparr>on = False, gpio = ucast ttt\<rparr>],
           led_count := led_count s + 1\<rparr>)"

fun scan_desc :: "env \<Rightarrow> string \<Rightarrow> string \<Rightarrow> gstate \<Rightarrow> scan_result" where
  "scan_desc e [] digs s =
     (if length digs = 0 then Scan_return (- EINVAL) (s\<lparr>led_count := 0\<rparr>)
      else if led_count s \<ge> MAX_LEDS then Scan_break s
      else Scan_break (add_led e digs s))"
| "scan_desc e (c # rest) digs s =
     (if c = CHR '','' \<or> c = CHR 0x00 then
        (if length digs = 0 then Scan_return (- EINVAL) (s\<lparr>led_count := 0\<rparr>)
         else if led_count s \<ge> MAX_LEDS then Scan_break s
         else if c = CHR 0x00 then Scan_break (add_led e digs s)
         else scan_desc e rest [] (add_led e digs s))
      else if length digs \<ge> GPIO_MAX_DIGITS then Scan_return (- EINVAL) (s\<lparr>led_count := 0\<rparr>)
      else scan_desc e rest (digs @ [c]) s)"

text \<open>
  The release loop \<^verbatim>\<open>for (uint8_t j = j; j < i; j++)\<close> of \<^verbatim>\<open>assign_leds\<close>, from
  whatever \<^verbatim>\<open>j\<close> holds when the loop is entered.
\<close>

definition release_led :: "nat \<Rightarrow> gstate \<Rightarrow> gstate" where
  "release_led j s =
     hw [Gpio_set_value (gpio (led_values s ! j)) False, Gpio_free (gpio (led_values s ! j))] s"

text \<open>
  The initialisation loop \<^verbatim>\<open>for (uint8_t i = 0; i < led_count; i++)\<close> of
  \<^verbatim>\<open>assign_leds\<close>, which returns from inside at the first invalid pin. The
  counters \<^verbatim>\<open>i\<close> and \<^verbatim>\<open>j\<close> stay below \<open>led_count \<le> 255\<close> and below
  \<open>i\<close>, so their increments never wrap; they are natural numbers here.
\<close>

function init_leds :: "env \<Rightarrow> nat \<Rightarrow> gstate \<Rightarrow> int \<times> gstate" where
  "init_leds e i s =
     (if i < unat (led_count s) then
        (if \<not> gpio_is_valid e (gpio (led_values s ! i)) then
           (- ENODEV, zero_counters (for_loop (unat (uninit_j e)) i release_led s))
         else init_leds e (Suc i) (hw [Gpio_direction_output (gpio (led_values s ! i)) False] s))
      else (0, s))"
  by pat_completeness auto
termination
  by (relation "measure (\<lambda>(e, i, s). unat (led_count s) - i)") (auto simp: hw_def)

declare init_leds.simps [simp del]

definition assign_leds :: "env \<Rightarrow> string \<Rightarrow> gstate \<Rightarrow> int \<times> gstate" where
  "assign_leds e led_desc s =
     (if led_count s > 0 then (- EPERM, s)
      else case scan_desc e led_desc [] s of
             Scan_return rc s1 \<Rightarrow> (rc, s1)
           | Scan_break s1 \<Rightarrow>
               (let s2 = setup_max_possible s1
                in if enable_gpio s2 then init_leds e 0 s2 else (0, s2)))"

definition unassign_led :: "nat \<Rightarrow> gstate \<Rightarrow> gstate" where
  "unassign_led i s =
     (let g = gpio (led_values s ! i)
      in hw [Gpio_set_value g False, Gpio_unexport g, Gpio_free g] s)"

definition unassign_leds :: "gstate \<Rightarrow> int \<times> gstate" where
  "unassign_leds s =
     (let s1 = (if enable_gpio s then for_loop 0 (unat (led_count s)) unassign_led s else s)
      in (0, s1\<lparr>led_count := 0\<rparr>))"

section \<open>The increment button\<close>

text \<open>
  \<^verbatim>\<open>button_irq_handler\<close>; \<open>now\<close> is what \<^verbatim>\<open>since_epoch_msec()\<close> returns in this
  interrupt. The subtraction and the comparison are those of \<^verbatim>\<open>unsigned int\<close>.
\<close>

definition button_irq_handler :: "u32 \<Rightarrow> gstate \<Rightarrow> gstate" where
  "button_irq_handler now s =
     (let interrupt_time_msec = now
      in if interrupt_time_msec - last_interrupt_time_msec s < 200 then s
         else (let s1 = s\<lparr>last_interrupt_time_msec := interrupt_time_msec\<rparr>;
                   s2 = snd (increment_maybe_wrap s1)
               in set_leds_from_value s2))"

definition assign_increment_button :: "env \<Rightarrow> gstate \<Rightarrow> int \<times> gstate" where
  "assign_increment_button e s =
     (if enable_gpio s then
        (let b = gpio_increment_button s
         in if \<not> gpio_is_valid e b then (- EINVAL, s)
            else (let s1 = hw [Gpio_direction_input b, Gpio_set_debounce b 200] s;
                      s2 = (hw [Gpio_to_irq b] s1)\<lparr>increment_irq := gpio_to_irq e b\<rparr>;
                      result = request_irq e (increment_irq s2);
                      s3 = hw [Request_irq (increment_irq s2) result] s2
                  in if result \<noteq> 0 then (result, s3) else (0, s3)))
      else (0, s))"

definition unassign_increment_button :: "gstate \<Rightarrow> int \<times> gstate" where
  "unassign_increment_button s =
     (if enable_gpio s \<and> gpio_increment_button s > 0 then
        (0, hw [Free_irq (increment_irq s), Gpio_unexport (gpio_increment_button s),
                Gpio_free (gpio_increment_button s)] s)
      else (0, s))"

section \<open>The sysfs attributes\<close>

text \<open>
  Each store function gets the text written and its length \<open>count\<close>, and returns the
  number of bytes it accepted (a negative number would be an error code).
\<close>

definition value_store :: "env \<Rightarrow> string \<Rightarrow> nat \<Rightarrow> gstate \<Rightarrow> int \<times> gstate" where
  "value_store e buf count s =
     (let t = sscanf_u buf (uninit_t e);
          s1 = s\<lparr>value_c := ucast t\<rparr>
      in (int count, set_leds_from_value s1))"

definition max_value_store :: "env \<Rightarrow> string \<Rightarrow> nat \<Rightarrow> gstate \<Rightarrow> int \<times> gstate" where
  "max_value_store e buf count s =
     (let t = sscanf_u buf (uninit_t e)
      in (int count, s\<lparr>max_value := ucast t\<rparr>))"

definition gpio_leds_store :: "env \<Rightarrow> string \<Rightarrow> nat \<Rightarrow> gstate \<Rightarrow> int \<times> gstate" where
  "gpio_leds_store e buf count s =
     (let s1 = snd (unassign_leds s);
          s2 = snd (assign_leds e buf s1)
      in (int count, set_leds_from_value s2))"

definition increment_store :: "string \<Rightarrow> nat \<Rightarrow> gstate \<Rightarrow> int \<times> gstate" where
  "increment_store buf count s =
     (let s1 = snd (increment_maybe_wrap s)
      in (int count, set_leds_from_value s1))"

definition gpio_button_increment_store :: "env \<Rightarrow> string \<Rightarrow> nat \<Rightarrow> gstate \<Rightarrow> int \<times> gstate" where
  "gpio_button_increment_store e buf count s =
     (let t = sscanf_u buf (uninit_t e);
          s1 = snd (unassign_increment_button s);
          s2 = s1\<lparr>gpio_increment_button := ucast t\<rparr>;
          s3 = snd (assign_increment_button e s2)
      in (int count, s3))"

section \<open>Every operation on the state\<close>

datatype operation =
    Op_increment
  | Op_setup_max_possible
  | Op_zero_counters
  | Op_assign_leds string
  | Op_unassign_leds
  | Op_set_leds_from_value
  | Op_button_irq u32
  | Op_assign_button
  | Op_unassign_button
  | Op_value_store string nat
  | Op_max_value_store string nat
  | Op_gpio_leds_store string nat
  | Op_increment_store string nat
  | Op_gpio_button_increment_store string nat

fun run_op :: "env \<Rightarrow> operation \<Rightarrow> gstate \<Rightarrow> gstate" where
  "run_op e Op_increment s = snd (increment_maybe_wrap s)"
| "run_op e Op_setup_max_possible s = setup_max_possible s"
| "run_op e Op_zero_counters s = zero_counters s"
| "run_op e (Op_assign_leds d) s = snd (assign_leds e d s)"
| "run_op e Op_unassign_leds s = snd (unassign_leds s)"
| "run_op e Op_set_leds_from_value s = set_leds_from_value s"
| "run_op e (Op_button_irq now) s = button_irq_handler now s"
| "run_op e Op_assign_button s = snd (assign_increment_button e s)"
| "run_op e Op_unassign_button s = snd (unassign_increment_button s)"
| "run_op e (Op_value_store buf n) s = snd (value_store e buf n s)"
| "run_op e (Op_max_value_store buf n) s = snd (max_value_store e buf n s)"
| "run_op e (Op_gpio_leds_store buf n) s = snd (gpio_leds_store e buf n s)"
| "run_op e (Op_increment_store buf n) s = snd (increment_store buf n s)"
| "run_op e (Op_gpio_button_increment_store buf n) s = snd (gpio_button_increment_store e buf n s)"

text \<open>\<^verbatim>\<open>increment_maybe_wrap\<close> called \<open>n\<close> times in a row, with the flag of each call.\<close>

fun increment_times :: "nat \<Rightarrow> gstate \<Rightarrow> bool list \<times> gstate" where
  "increment_times 0 s = ([], s)"
| "increment_times (Suc n) s =
     (let (w, s1) = increment_maybe_wrap s;
          (ws, s2) = increment_times n s1
      in (w # ws, s2))"

section \<open>Reading the hardware log\<close>

text \<open>
  The output pins that are configured after a sequence of calls (configured by
  \<^verbatim>\<open>gpio_direction_output\<close>, until \<^verbatim>\<open>gpio_free\<close>), the pins configured as input
  (by \<^verbatim>\<open>gpio_direction_input\<close>, until \<^verbatim>\<open>gpio_free\<close>), and the interrupt lines that
  have a handler (a \<^verbatim>\<open>request_irq\<close> that returned 0, until \<^verbatim>\<open>free_irq\<close>).
\<close>

fun configured_pins :: "hw_call list \<Rightarrow> u8 list \<Rightarrow> u8 list" where
  "configured_pins [] ps = ps"
| "configured_pins (Gpio_direction_output p l # cs) ps = configured_pins cs (ps @ [p])"
| "configured_pins (Gpio_free p # cs) ps = configured_pins cs (removeAll p ps)"
| "configured_pins (c # cs) ps = configured_pins cs ps"



section \<open>The vocabulary of the specification\<close>

text \<open>
  The LED encoder of the specification: \<open>pin_count\<close> booleans, position \<open>i\<close> true iff
  bit \<open>i\<close> of the value is set.
\<close>

definition encode :: "u8 \<Rightarrow> nat \<Rightarrow> bool list" where
  "encode v pin_count = map (bit v) [0..<pin_count]"

text \<open>
  The comma-separated fields of a descriptor (a C string, so the text ends at its first
  NUL); \<open>cur\<close> is the part of the current field already read.
\<close>

fun split_commas :: "string \<Rightarrow> string \<Rightarrow> string list" where
  "split_commas cur [] = [cur]"
| "split_commas cur (c # cs) =
     (if c = CHR 0x00 then [cur]
      else if c = CHR '','' then cur # split_commas [] cs
      else split_commas (cur @ [c]) cs)"

definition fields :: "string \<Rightarrow> string list" where
  "fields d = split_commas [] d"

text \<open>A field the scan rejects: empty, or longer than \<^verbatim>\<open>GPIO_MAX_DIGITS\<close>.\<close>

definition bad_field :: "string \<Rightarrow> bool" where
  "bad_field f = (length f = 0 \<or> GPIO_MAX_DIGITS < length f)"

text \<open>The number a string of decimal digits denotes.\<close>

definition decimal :: "string \<Rightarrow> nat" where
  "decimal ds = foldl (\<lambda>a c. a * 10 + digit_val c) 0 ds"

text \<open>The decimal numeral of a number, without leading zeros.\<close>

fun digits_of :: "nat \<Rightarrow> string" where
  "digits_of n =
     (if n < 10 then [char_of (48 + n)]
      else digits_of (n div 10) @ [char_of (48 + n mod 10)])"

declare digits_of.simps [simp del]

text \<open>The invariant \<open>0 \<le> value \<le> max_possible\<close> of the counter state.\<close>

definition counter_inv :: "gstate \<Rightarrow> bool" where
  "counter_inv s = (value_c s \<le> max_possible s)"

definition is_value_store :: "operation \<Rightarrow> bool" where
  "is_value_store op = (case op of Op_value_store buf n \<Rightarrow> True | _ \<Rightarrow> False)"


text \<open>
  A board for the examples: GPIO numbers below 54 are valid, pin \<open>p\<close> maps to interrupt
  line \<open>160 + p\<close>, every interrupt request succeeds. \<open>j0\<close> is what the variable
  \<^verbatim>\<open>j\<close> of the release loop holds before its first assignment.
\<close>

definition board :: "u8 \<Rightarrow> env" where
  "board j0 =
     \<lparr>gpio_is_valid = (\<lambda>p. p < 54), gpio_to_irq = (\<lambda>p. 160 + ucast p),
      request_irq = (\<lambda>n. 0), uninit_ttt = (\<lambda>i. 0), uninit_t = 0, uninit_j = j0\<rparr>"

text \<open>
  A running counter for the examples: three LEDs on pins 5, 12 and 20, the value 2, the
  button on pin 17.
\<close>

definition demo_state :: gstate where
  "demo_state =
     \<lparr>enable_gpio = True, led_count = 3,
      led_values = [\<lparr>on = False, gpio = 5\<rparr>, \<lparr>on = True, gpio = 12\<rparr>, \<lparr>on = False, gpio = 20\<rparr>,
                    \<lparr>on = False, gpio = 0\<rparr>, \<lparr>on = False, gpio = 0\<rparr>, \<lparr>on = False, gpio = 0\<rparr>,
                    \<lparr>on = False, gpio = 0\<rparr>, \<lparr>on = False, gpio = 0\<rparr>],
      gpio_increment_button = 17, value_c = 2, max_value = 2, max_possible = 7,
      last_interrupt_time_msec = 4294967196, increment_irq = 177, hw_log = []\<rparr>"

section \<open>Loops and the hardware log\<close>

lemma for_loop_ge [simp]: "n \<le> i \<Longrightarrow> for_loop i n body s = s"
  by (simp add: for_loop.simps)

lemma for_loop_step: "i < n \<Longrightarrow> for_loop i n body s = for_loop (Suc i) n body (body i s)"
  by (subst for_loop.simps) simp

lemma for_loop_Suc: "i \<le> n \<Longrightarrow> for_loop i (Suc n) body s = body n (for_loop i n body s)"
proof (induction i n body s rule: for_loop.induct)
  case (1 i n body s)
  show ?case
  proof (cases "i < n")
    case True
    then show ?thesis using 1 by (simp add: for_loop_step)
  next
    case False
    then have "i = n" using 1 by simp
    then show ?thesis by (simp add: for_loop_step)
  qed
qed

lemma hw_Nil [simp]: "hw [] s = s"
  by (simp add: hw_def)

lemma hw_hw [simp]: "hw cs (hw ds s) = hw (ds @ cs) s"
  by (simp add: hw_def)

lemma hw_fields [simp]:
  "led_values (hw cs s) = led_values s" "led_count (hw cs s) = led_count s"
  "value_c (hw cs s) = value_c s" "max_value (hw cs s) = max_value s"
  "max_possible (hw cs s) = max_possible s" "enable_gpio (hw cs s) = enable_gpio s"
  "gpio_increment_button (hw cs s) = gpio_increment_button s"
  "increment_irq (hw cs s) = increment_irq s"
  "last_interrupt_time_msec (hw cs s) = last_interrupt_time_msec s"
  "hw_log (hw cs s) = hw_log s @ cs"
  by (simp_all add: hw_def)

text \<open>A loop whose body only talks to the hardware only extends the log.\<close>

lemma for_loop_hw:
  assumes "\<And>i t. \<exists>cs. body i t = hw cs t"
  shows "\<exists>cs. for_loop i n body s = hw cs s"
  using assms
proof (induction i n body s rule: for_loop.induct)
  case (1 i n body s)
  show ?case
  proof (cases "i < n")
    case True
    obtain cs where cs: "body i s = hw cs s" using 1(2) by blast
    obtain ds where "for_loop (Suc i) n body (body i s) = hw ds (body i s)"
      using 1(1) [OF True 1(2)] by blast
    then have "for_loop i n body s = hw (cs @ ds) s"
      using True cs by (simp add: for_loop_step)
    then show ?thesis by blast
  next
    case False
    then have "for_loop i n body s = hw [] s" by simp
    then show ?thesis by blast
  qed
qed

section \<open>The counter\<close>

lemma increment_times_no_wrap:
  "unat (value_c s) + k \<le> unat (max_possible s) \<Longrightarrow>
   fst (increment_times k s) = replicate k False \<and>
   value_c (snd (increment_times k s)) = value_c s + of_nat k \<and>
   max_possible (snd (increment_times k s)) = max_possible s"
proof (induction k arbitrary: s)
  case 0
  then show ?case by simp
next
  case (Suc k)
  then have lt: "value_c s < max_possible s"
    by (simp add: word_less_nat_alt)
  obtain s1 where s1: "increment_maybe_wrap s = (False, s1)" and
     v1: "value_c s1 = value_c s + 1" and m1: "max_possible s1 = max_possible s"
    using lt by (simp add: increment_maybe_wrap_def Let_def)
  have "unat (value_c s + 1) = unat (value_c s) + 1"
    using lt by unat_arith
  then have "unat (value_c s1) + k \<le> unat (max_possible s1)"
    using Suc.prems v1 m1 by simp
  from Suc.IH [OF this] show ?case
    using s1 v1 m1 by (simp add: split_beta)
qed

lemma increment_times_add:
  "increment_times (m + n) s =
     (fst (increment_times m s) @ fst (increment_times n (snd (increment_times m s))),
      snd (increment_times n (snd (increment_times m s))))"
  by (induction m arbitrary: s) (simp_all add: split_beta Let_def)

text \<open>
  C2. The claim: from a state with \<open>value < max_possible\<close>, also one with
  \<open>value > max_value\<close>, \<^verbatim>\<open>increment_maybe_wrap\<close> adds one to \<open>value\<close> and raises
  \<open>max_value\<close> to the new \<open>value\<close> when the new \<open>value\<close> exceeds it. The code adds
  one to \<open>max_value\<close> instead: from \<open>value = 5\<close>, \<open>max_value = 2\<close>, \<open>max_possible = 7\<close>
  it reaches \<open>value = 6\<close> with \<open>max_value = 3\<close>.
\<close>

theorem increment_maybe_wrap_after_override:
  "increment_maybe_wrap ((init_state False)\<lparr>value_c := 5, max_value := 2, max_possible := 7\<rparr>)
     = (False, (init_state False)\<lparr>value_c := 6, max_value := 3, max_possible := 7\<rparr>)"
  by (simp add: increment_maybe_wrap_def init_state_def)

text \<open>
  C3. Starting from \<open>value = 0\<close> with ceiling \<open>M = max_possible\<close>, the first \<open>M\<close> calls of
  \<^verbatim>\<open>increment_maybe_wrap\<close> all return false; call \<open>M + 1\<close> returns true and only sets
  \<open>value\<close> back to 0, so it leaves \<open>max_value\<close> as the first \<open>M\<close> calls left it.
\<close>

theorem increment_wraps_once:
  assumes "value_c s = 0"
  shows "fst (increment_times (unat (max_possible s)) s) = replicate (unat (max_possible s)) False \<and>
         increment_maybe_wrap (snd (increment_times (unat (max_possible s)) s)) =
           (True, (snd (increment_times (unat (max_possible s)) s))\<lparr>value_c := 0\<rparr>) \<and>
         increment_times (unat (max_possible s) + 1) s =
           (replicate (unat (max_possible s)) False @ [True],
            (snd (increment_times (unat (max_possible s)) s))\<lparr>value_c := 0\<rparr>)"
proof -
  let ?M = "unat (max_possible s)"
  let ?sM = "snd (increment_times ?M s)"
  have "unat (value_c s) + ?M \<le> ?M" using assms by simp
  from increment_times_no_wrap [OF this]
  have flags: "fst (increment_times ?M s) = replicate ?M False"
    and v: "value_c ?sM = max_possible s" and m: "max_possible ?sM = max_possible s"
    using assms by simp_all
  have wrap: "increment_maybe_wrap ?sM = (True, ?sM\<lparr>value_c := 0\<rparr>)"
    using v m by (simp add: increment_maybe_wrap_def)
  have "increment_times (?M + 1) s = (fst (increment_times ?M s) @ [True], ?sM\<lparr>value_c := 0\<rparr>)"
    by (simp only: increment_times_add) (simp add: wrap)
  then show ?thesis using flags wrap by simp
qed

theorem increment_wraps_once_witness:
  "value_c ((init_state False)\<lparr>max_possible := 3\<rparr>) = 0 \<and>
   increment_times 4 ((init_state False)\<lparr>max_possible := 3\<rparr>) =
     ([False, False, False, True], (init_state False)\<lparr>max_possible := 3, max_value := 3\<rparr>)"
proof -
  let ?s = "(init_state False)\<lparr>max_possible := 3\<rparr>"
  have h: "value_c ?s = 0" by (simp add: init_state_def)
  have m: "unat (max_possible ?s) = 3" by simp
  have s3: "snd (increment_times 3 ?s) = (init_state False)\<lparr>max_possible := 3, max_value := 3, value_c := 3\<rparr>"
    by (simp add: numeral_3_eq_3 increment_maybe_wrap_def init_state_def)
  have r: "replicate 3 False @ [True] = [False, False, False, True]"
    by (simp add: numeral_3_eq_3)
  have "increment_times (3 + 1) ?s = (replicate 3 False @ [True], (snd (increment_times 3 ?s))\<lparr>value_c := 0\<rparr>)"
    using increment_wraps_once [OF h] unfolding m by blast
  then have "increment_times 4 ?s = ([False, False, False, True], (init_state False)\<lparr>max_possible := 3, max_value := 3\<rparr>)"
    unfolding s3 r by (simp add: init_state_def)
  then show ?thesis using h by blast
qed

lemma shift_one_in_loop:
  "for_loop 0 n shift_one_in (s\<lparr>max_possible := 0\<rparr>) = s\<lparr>max_possible := mask n\<rparr>"
proof (induction n)
  case 0
  then show ?case by simp
next
  case (Suc n)
  have "push_bit 1 (mask n :: u8) OR 1 = mask (Suc n)"
    by (simp add: mask_Suc_double or.commute mult.commute)
  then show ?case using Suc by (simp add: for_loop_Suc shift_one_in_def)
qed

lemma unat_mask_u8:
  assumes "n \<le> 8"
  shows "unat (mask n :: u8) = 2 ^ n - 1"
proof -
  have "n \<in> {0, 1, 2, 3, 4, 5, 6, 7, 8}"
    using assms by auto
  then show ?thesis
    by (auto simp: mask_numeral)
qed

lemma setup_max_possible_eq:
  "setup_max_possible s =
     (if mask (unat (led_count s)) < value_c s
      then s\<lparr>max_possible := mask (unat (led_count s)), value_c := 0\<rparr>
      else s\<lparr>max_possible := mask (unat (led_count s))\<rparr>)"
  by (simp add: setup_max_possible_def Let_def shift_one_in_loop)

text \<open>
  C8. With at most eight pins, \<^verbatim>\<open>setup_max_possible\<close> sets \<open>max_possible\<close> to
  \<open>2 ^ led_count - 1\<close>; \<open>value\<close> becomes 0 when it exceeded the new \<open>max_possible\<close> and
  stays as it was otherwise; \<open>max_value\<close> stays as it was.
\<close>

theorem setup_max_possible_ceiling:
  assumes "unat (led_count s) \<le> 8"
  shows "unat (max_possible (setup_max_possible s)) = 2 ^ unat (led_count s) - 1 \<and>
         value_c (setup_max_possible s) =
           (if 2 ^ unat (led_count s) - 1 < unat (value_c s) then 0 else value_c s) \<and>
         max_value (setup_max_possible s) = max_value s"
  using assms by (simp add: setup_max_possible_eq word_less_nat_alt unat_mask_u8)

theorem setup_max_possible_ceiling_witness:
  "unat (led_count ((init_state False)\<lparr>led_count := 3, value_c := 9, max_value := 9\<rparr>)) \<le> 8 \<and>
   unat (max_possible (setup_max_possible ((init_state False)\<lparr>led_count := 3, value_c := 9, max_value := 9\<rparr>))) = 7 \<and>
   value_c (setup_max_possible ((init_state False)\<lparr>led_count := 3, value_c := 9, max_value := 9\<rparr>)) = 0 \<and>
   max_value (setup_max_possible ((init_state False)\<lparr>led_count := 3, value_c := 9, max_value := 9\<rparr>)) = 9"
proof -
  let ?s = "(init_state False)\<lparr>led_count := 3, value_c := 9, max_value := 9\<rparr>"
  have h: "unat (led_count ?s) \<le> 8" by simp
  show ?thesis
    using h setup_max_possible_ceiling [OF h] by simp
qed

section \<open>The debounce gate\<close>

lemma wrap_sub_nat:
  fixes a b m :: nat
  assumes "a < m" and "b < m"
  shows "(a + m - b) mod m = (if b \<le> a then a - b else a + m - b)"
proof (cases "b \<le> a")
  case True
  then have "a + m - b = (a - b) + m" by simp
  then have "(a + m - b) mod m = (a - b) mod m" by simp
  moreover have "a - b < m" using assms by simp
  ultimately show ?thesis using True by simp
next
  case False
  then have "a + m - b < m" using assms by simp
  then show ?thesis using False by simp
qed

lemma unat_sub_wrap: "unat (a - b :: u32) = (unat a + 2 ^ 32 - unat b) mod 2 ^ 32"
proof -
  have "unat b < 2 ^ 32" and "unat a < 2 ^ 32"
    using unsigned_less [of b] unsigned_less [of a] by simp_all
  from wrap_sub_nat [OF this(2) this(1)] show ?thesis
    by (simp add: unat_sub_if_size word_size)
qed

section \<open>The LED encoder\<close>

lemma low_bit_of_shifted: "(drop_bit n (v :: u8) AND 1 = 1) = bit v n"
  by (simp add: and_one_eq bit_iff_odd_drop_bit odd_iff_mod_2_eq_one)

lemma shift_loop:
  "n \<le> length lv \<Longrightarrow>
   fst (for_loop 0 n shift_bit_out (v, lv)) = drop_bit n v \<and>
   length (snd (for_loop 0 n shift_bit_out (v, lv))) = length lv \<and>
   (\<forall>i < length lv. snd (for_loop 0 n shift_bit_out (v, lv)) ! i =
        (if i < n then (lv ! i)\<lparr>on := bit v i\<rparr> else lv ! i))"
proof (induction n)
  case 0
  then show ?case by simp
next
  case (Suc n)
  then have IH: "fst (for_loop 0 n shift_bit_out (v, lv)) = drop_bit n v"
    "length (snd (for_loop 0 n shift_bit_out (v, lv))) = length lv"
    "\<And>i. i < length lv \<Longrightarrow> snd (for_loop 0 n shift_bit_out (v, lv)) ! i =
        (if i < n then (lv ! i)\<lparr>on := bit v i\<rparr> else lv ! i)"
    by simp_all
  obtain b lv' where r: "for_loop 0 n shift_bit_out (v, lv) = (b, lv')"
    by (cases "for_loop 0 n shift_bit_out (v, lv)")
  from IH r have b: "b = drop_bit n v" and len: "length lv' = length lv"
    and nth: "\<And>i. i < length lv \<Longrightarrow> lv' ! i = (if i < n then (lv ! i)\<lparr>on := bit v i\<rparr> else lv ! i)"
    by simp_all
  have step: "for_loop 0 (Suc n) shift_bit_out (v, lv) =
      (drop_bit (Suc n) v, lv'[n := (lv' ! n)\<lparr>on := bit v n\<rparr>])"
    by (simp add: for_loop_Suc r shift_bit_out_def Let_def b low_bit_of_shifted)
  have "n < length lv" using Suc.prems by simp
  then show ?case
    unfolding step using len nth by (auto simp: nth_list_update less_Suc_eq)
qed

lemma write_loop:
  "n \<le> length (led_values s) \<Longrightarrow>
   for_loop 0 n write_led s =
     hw (map (\<lambda>l. Gpio_set_value (gpio l) (on l)) (take n (led_values s))) s"
proof (induction n)
  case 0
  then show ?case by simp
next
  case (Suc n)
  then show ?case
    by (simp add: for_loop_Suc write_led_def take_Suc_conv_app_nth)
qed

lemma write_leds_hw: "\<exists>cs. for_loop 0 n write_led s = hw cs s"
  by (rule for_loop_hw) (auto simp: write_led_def)

lemma set_leds_from_value_shape:
  "\<exists>lv cs. set_leds_from_value s = hw cs (s\<lparr>led_values := lv\<rparr>)"
proof -
  let ?s1 = "s\<lparr>led_values := snd (for_loop 0 (unat (led_count s)) shift_bit_out (value_c s, led_values s))\<rparr>"
  obtain cs where "for_loop 0 (unat (led_count ?s1)) write_led ?s1 = hw cs ?s1"
    using write_leds_hw by blast
  moreover have "?s1 = hw [] ?s1" by simp
  ultimately show ?thesis
    unfolding set_leds_from_value_def Let_def by (metis (full_types))
qed

lemma set_leds_from_value_fields [simp]:
  "led_count (set_leds_from_value s) = led_count s"
  "value_c (set_leds_from_value s) = value_c s"
  "max_value (set_leds_from_value s) = max_value s"
  "max_possible (set_leds_from_value s) = max_possible s"
  "enable_gpio (set_leds_from_value s) = enable_gpio s"
  "gpio_increment_button (set_leds_from_value s) = gpio_increment_button s"
  "increment_irq (set_leds_from_value s) = increment_irq s"
  "last_interrupt_time_msec (set_leds_from_value s) = last_interrupt_time_msec s"
proof -
  obtain lv cs where "set_leds_from_value s = hw cs (s\<lparr>led_values := lv\<rparr>)"
    using set_leds_from_value_shape by blast
  then show "led_count (set_leds_from_value s) = led_count s"
  "value_c (set_leds_from_value s) = value_c s"
  "max_value (set_leds_from_value s) = max_value s"
  "max_possible (set_leds_from_value s) = max_possible s"
  "enable_gpio (set_leds_from_value s) = enable_gpio s"
  "gpio_increment_button (set_leds_from_value s) = gpio_increment_button s"
  "increment_irq (set_leds_from_value s) = increment_irq s"
  "last_interrupt_time_msec (set_leds_from_value s) = last_interrupt_time_msec s"
    by simp_all
qed

lemma set_leds_from_value_effect:
  assumes "led_count s \<le> MAX_LEDS" and "length (led_values s) = unat MAX_LEDS"
  shows "map on (take (unat (led_count s)) (led_values (set_leds_from_value s)))
           = encode (value_c s) (unat (led_count s)) \<and>
         map gpio (led_values (set_leds_from_value s)) = map gpio (led_values s) \<and>
         drop (unat (led_count s)) (led_values (set_leds_from_value s))
           = drop (unat (led_count s)) (led_values s) \<and>
         hw_log (set_leds_from_value s) = hw_log s @
           (if enable_gpio s
            then map (\<lambda>i. Gpio_set_value (gpio (led_values s ! i)) (bit (value_c s) i))
                   [0..<unat (led_count s)]
            else [])"
proof -
  let ?n = "unat (led_count s)"
  let ?lv = "snd (for_loop 0 ?n shift_bit_out (value_c s, led_values s))"
  have n: "?n \<le> length (led_values s)"
    using assms by (simp add: word_le_nat_alt)
  note L = shift_loop [OF n, of "value_c s"]
  have len: "length ?lv = length (led_values s)" using L by simp
  have nth: "\<And>i. i < length (led_values s) \<Longrightarrow>
      ?lv ! i = (if i < ?n then (led_values s ! i)\<lparr>on := bit (value_c s) i\<rparr> else led_values s ! i)"
    using L by simp
  have lv: "led_values (set_leds_from_value s) = ?lv"
    using n len by (simp add: set_leds_from_value_def Let_def write_loop)
  have log: "hw_log (set_leds_from_value s) = hw_log s @
      (if enable_gpio s then map (\<lambda>l. Gpio_set_value (gpio l) (on l)) (take ?n ?lv) else [])"
    using n len by (simp add: set_leds_from_value_def Let_def write_loop)
  have a: "map on (take ?n ?lv) = encode (value_c s) ?n"
    using n len nth by (auto simp: encode_def list_eq_iff_nth_eq)
  have b: "map gpio ?lv = map gpio (led_values s)"
    using len nth by (auto simp: list_eq_iff_nth_eq)
  have c: "drop ?n ?lv = drop ?n (led_values s)"
    using n len nth by (auto simp: list_eq_iff_nth_eq)
  have d: "map (\<lambda>l. Gpio_set_value (gpio l) (on l)) (take ?n ?lv) =
      map (\<lambda>i. Gpio_set_value (gpio (led_values s ! i)) (bit (value_c s) i)) [0..<?n]"
    using n len nth by (auto simp: list_eq_iff_nth_eq)
  show ?thesis using a b c d lv log by simp
qed

text \<open>
  C9. With \<open>N = led_count\<close> pins, at most eight, \<^verbatim>\<open>set_leds_from_value\<close> sets exactly the
  first \<open>N\<close> positions: position \<open>i\<close> is on iff bit \<open>i\<close> of \<open>value\<close> is set, which is the
  encoder of the specification. The pin numbers and the entries from \<open>N\<close> on stay as
  they were, and with GPIO enabled the \<open>N\<close> levels are written to the pins in order.
  This holds for every \<open>value\<close>, so also for those up to \<open>2 ^ N - 1\<close>.
\<close>

theorem set_leds_from_value_encodes:
  assumes "led_count s \<le> MAX_LEDS" and "length (led_values s) = unat MAX_LEDS"
  shows "map on (take (unat (led_count s)) (led_values (set_leds_from_value s)))
           = encode (value_c s) (unat (led_count s)) \<and>
         map gpio (led_values (set_leds_from_value s)) = map gpio (led_values s) \<and>
         drop (unat (led_count s)) (led_values (set_leds_from_value s))
           = drop (unat (led_count s)) (led_values s) \<and>
         hw_log (set_leds_from_value s) = hw_log s @
           (if enable_gpio s
            then map (\<lambda>i. Gpio_set_value (gpio (led_values s ! i)) (bit (value_c s) i))
                   [0..<unat (led_count s)]
            else [])"
  using assms by (rule set_leds_from_value_effect)

theorem set_leds_from_value_encodes_witness:
  "led_count ((init_state True)\<lparr>led_count := 3, value_c := 5\<rparr>) \<le> MAX_LEDS \<and>
   length (led_values ((init_state True)\<lparr>led_count := 3, value_c := 5\<rparr>)) = unat MAX_LEDS \<and>
   map on (take 3 (led_values (set_leds_from_value ((init_state True)\<lparr>led_count := 3, value_c := 5\<rparr>))))
     = [True, False, True] \<and>
   hw_log (set_leds_from_value ((init_state True)\<lparr>led_count := 3, value_c := 5\<rparr>))
     = [Gpio_set_value 0 True, Gpio_set_value 0 False, Gpio_set_value 0 True]"
proof -
  let ?s = "(init_state True)\<lparr>led_count := 3, value_c := 5\<rparr>"
  have h1: "led_count ?s \<le> MAX_LEDS" by (simp add: MAX_LEDS_def)
  have h2: "length (led_values ?s) = unat MAX_LEDS" by (simp add: MAX_LEDS_def init_state_def)
  have n: "unat (led_count ?s) = 3" by simp
  have v: "value_c ?s = 5" by simp
  have e: "encode 5 3 = [True, False, True]" by code_simp
  have g: "(if enable_gpio ?s
            then map (\<lambda>i. Gpio_set_value (gpio (led_values ?s ! i)) (bit (5 :: u8) i)) [0..<3]
            else []) = [Gpio_set_value 0 True, Gpio_set_value 0 False, Gpio_set_value 0 True]"
    by code_simp
  have l: "hw_log ?s = []" by (simp add: init_state_def)
  note T = set_leds_from_value_encodes [OF h1 h2, unfolded n v]
  from T have "map on (take 3 (led_values (set_leds_from_value ?s))) = encode 5 3"
    by blast
  then have a: "map on (take 3 (led_values (set_leds_from_value ?s))) = [True, False, True]"
    by (simp only: e)
  from T have "hw_log (set_leds_from_value ?s) = hw_log ?s @
           (if enable_gpio ?s
            then map (\<lambda>i. Gpio_set_value (gpio (led_values ?s ! i)) (bit (5 :: u8) i)) [0..<3]
            else [])"
    by blast
  then have b: "hw_log (set_leds_from_value ?s)
      = [Gpio_set_value 0 True, Gpio_set_value 0 False, Gpio_set_value 0 True]"
    by (simp only: g l append_Nil)
  show ?thesis
    using h1 h2 a b by blast
qed

section \<open>The interrupt handler\<close>

lemma increment_maybe_wrap_fields [simp]:
  "led_count (snd (increment_maybe_wrap s)) = led_count s"
  "led_values (snd (increment_maybe_wrap s)) = led_values s"
  "enable_gpio (snd (increment_maybe_wrap s)) = enable_gpio s"
  "hw_log (snd (increment_maybe_wrap s)) = hw_log s"
  "last_interrupt_time_msec (snd (increment_maybe_wrap s)) = last_interrupt_time_msec s"
  "max_possible (snd (increment_maybe_wrap s)) = max_possible s"
  "value_c (snd (increment_maybe_wrap s)) = (if value_c s < max_possible s then value_c s + 1 else 0)"
  "max_value (snd (increment_maybe_wrap s)) =
     (if value_c s < max_possible s \<and> max_value s < value_c s + 1 then max_value s + 1 else max_value s)"
  by (simp_all add: increment_maybe_wrap_def Let_def)

text \<open>
  C5. With \<open>d = now - last_interrupt_time_msec\<close> computed modulo \<open>2 ^ 32\<close> and at most
  eight LEDs: when \<open>200 \<le> d\<close> the handler stores \<open>now\<close> as the time of the last accepted
  trigger, the counter makes one step (\<open>value\<close> goes up by one below \<open>max_possible\<close> and
  back to 0 at \<open>max_possible\<close>, \<open>max_value\<close> goes up by one when the new \<open>value\<close> exceeds
  it), and the LEDs show the new \<open>value\<close>: the first \<open>led_count\<close> positions are its bits
  and, with GPIO enabled, they are written to the pins. When \<open>d < 200\<close> the whole state
  (time stamp, counter, LEDs, hardware log) stays as it was.
\<close>

theorem button_irq_handler_debounce:
  assumes "led_count s \<le> MAX_LEDS" and "length (led_values s) = unat MAX_LEDS"
  shows
  "(200 \<le> (unat now + 2 ^ 32 - unat (last_interrupt_time_msec s)) mod 2 ^ 32 \<longrightarrow>
      last_interrupt_time_msec (button_irq_handler now s) = now \<and>
      value_c (button_irq_handler now s) = (if value_c s < max_possible s then value_c s + 1 else 0) \<and>
      max_value (button_irq_handler now s) =
        (if value_c s < max_possible s \<and> max_value s < value_c s + 1 then max_value s + 1
         else max_value s) \<and>
      max_possible (button_irq_handler now s) = max_possible s \<and>
      led_count (button_irq_handler now s) = led_count s \<and>
      map on (take (unat (led_count s)) (led_values (button_irq_handler now s)))
        = encode (value_c (button_irq_handler now s)) (unat (led_count s)) \<and>
      map gpio (led_values (button_irq_handler now s)) = map gpio (led_values s) \<and>
      drop (unat (led_count s)) (led_values (button_irq_handler now s))
        = drop (unat (led_count s)) (led_values s) \<and>
      hw_log (button_irq_handler now s) = hw_log s @
        (if enable_gpio s
         then map (\<lambda>i. Gpio_set_value (gpio (led_values s ! i))
                       (bit (value_c (button_irq_handler now s)) i)) [0..<unat (led_count s)]
         else [])) \<and>
   ((unat now + 2 ^ 32 - unat (last_interrupt_time_msec s)) mod 2 ^ 32 < 200 \<longrightarrow>
      button_irq_handler now s = s)"
proof -
  let ?d = "(unat now + 2 ^ 32 - unat (last_interrupt_time_msec s)) mod 2 ^ 32"
  let ?s2 = "snd (increment_maybe_wrap (s\<lparr>last_interrupt_time_msec := now\<rparr>))"
  have cmp: "(now - last_interrupt_time_msec s < 200) = (?d < 200)"
    by (simp only: word_less_nat_alt unat_sub_wrap) simp
  have rej: "button_irq_handler now s = s" if "?d < 200"
    using that cmp by (simp add: button_irq_handler_def Let_def)
  have acc: "button_irq_handler now s = set_leds_from_value ?s2" if "200 \<le> ?d"
    using that cmp by (simp add: button_irq_handler_def Let_def)
  have h1: "led_count ?s2 \<le> MAX_LEDS" using assms(1) by simp
  have h2: "length (led_values ?s2) = unat MAX_LEDS" using assms(2) by simp
  note E = set_leds_from_value_effect [OF h1 h2]
  show ?thesis
  proof (intro conjI impI)
    assume a: "200 \<le> ?d"
    note eq = acc [OF a]
    show "last_interrupt_time_msec (button_irq_handler now s) = now" by (simp add: eq)
    show v: "value_c (button_irq_handler now s) = (if value_c s < max_possible s then value_c s + 1 else 0)"
      by (simp add: eq)
    show "max_value (button_irq_handler now s) =
        (if value_c s < max_possible s \<and> max_value s < value_c s + 1 then max_value s + 1
         else max_value s)" by (simp add: eq)
    show "max_possible (button_irq_handler now s) = max_possible s" by (simp add: eq)
    show "led_count (button_irq_handler now s) = led_count s" by (simp add: eq)
    have v2: "value_c (button_irq_handler now s) = value_c ?s2" by (simp add: eq)
    show "map on (take (unat (led_count s)) (led_values (button_irq_handler now s)))
        = encode (value_c (button_irq_handler now s)) (unat (led_count s))"
      unfolding v2 using E by (simp add: eq)
    show "map gpio (led_values (button_irq_handler now s)) = map gpio (led_values s)"
      using E by (simp add: eq)
    show "drop (unat (led_count s)) (led_values (button_irq_handler now s))
        = drop (unat (led_count s)) (led_values s)"
      using E by (simp add: eq)
    show "hw_log (button_irq_handler now s) = hw_log s @
        (if enable_gpio s
         then map (\<lambda>i. Gpio_set_value (gpio (led_values s ! i))
                       (bit (value_c (button_irq_handler now s)) i)) [0..<unat (led_count s)]
         else [])"
      unfolding v2 using E by (simp add: eq)
  next
    assume "?d < 200"
    then show "button_irq_handler now s = s" by (rule rej)
  qed
qed

theorem button_irq_handler_debounce_witness:
  "led_count demo_state \<le> MAX_LEDS \<and> length (led_values demo_state) = unat MAX_LEDS \<and>
   last_interrupt_time_msec (button_irq_handler 100 demo_state) = 100 \<and>
   value_c (button_irq_handler 100 demo_state) = 3 \<and>
   max_value (button_irq_handler 100 demo_state) = 3 \<and>
   map on (take 3 (led_values (button_irq_handler 100 demo_state))) = [True, True, False] \<and>
   hw_log (button_irq_handler 100 demo_state) =
     [Gpio_set_value 5 True, Gpio_set_value 12 True, Gpio_set_value 20 False] \<and>
   button_irq_handler 99 demo_state = demo_state"
proof -
  have h1: "led_count demo_state \<le> MAX_LEDS" by code_simp
  have h2: "length (led_values demo_state) = unat MAX_LEDS" by code_simp
  have a: "200 \<le> (unat (100 :: u32) + 2 ^ 32 - unat (last_interrupt_time_msec demo_state)) mod 2 ^ 32"
    by (simp add: demo_state_def)
  have b: "(unat (99 :: u32) + 2 ^ 32 - unat (last_interrupt_time_msec demo_state)) mod 2 ^ 32 < 200"
    by (simp add: demo_state_def)
  note A = button_irq_handler_debounce [OF h1 h2, of 100, THEN conjunct1, rule_format, OF a]
  note B = button_irq_handler_debounce [OF h1 h2, of 99, THEN conjunct2, rule_format, OF b]
  have n: "unat (led_count demo_state) = 3" by code_simp
  have en: "enable_gpio demo_state" by code_simp
  have l: "hw_log demo_state = []" by code_simp
  have v0: "(if value_c demo_state < max_possible demo_state then value_c demo_state + 1 else 0) = 3"
    by code_simp
  have m0: "(if value_c demo_state < max_possible demo_state \<and> max_value demo_state < value_c demo_state + 1
             then max_value demo_state + 1 else max_value demo_state) = 3"
    by code_simp
  have e: "encode 3 3 = [True, True, False]" by code_simp
  have g: "map (\<lambda>i. Gpio_set_value (gpio (led_values demo_state ! i)) (bit (3 :: u8) i)) [0..<3]
        = [Gpio_set_value 5 True, Gpio_set_value 12 True, Gpio_set_value 20 False]"
    by code_simp
  from A have t: "last_interrupt_time_msec (button_irq_handler 100 demo_state) = 100" by blast
  from A have v: "value_c (button_irq_handler 100 demo_state) = 3" unfolding v0 by blast
  from A have m: "max_value (button_irq_handler 100 demo_state) = 3" unfolding m0 by blast
  from A have "map on (take (unat (led_count demo_state)) (led_values (button_irq_handler 100 demo_state)))
        = encode (value_c (button_irq_handler 100 demo_state)) (unat (led_count demo_state))"
    by blast
  then have o: "map on (take 3 (led_values (button_irq_handler 100 demo_state))) = [True, True, False]"
    unfolding n v e .
  from A have "hw_log (button_irq_handler 100 demo_state) = hw_log demo_state @
        (if enable_gpio demo_state
         then map (\<lambda>i. Gpio_set_value (gpio (led_values demo_state ! i))
                       (bit (value_c (button_irq_handler 100 demo_state)) i)) [0..<unat (led_count demo_state)]
         else [])"
    by blast
  then have w: "hw_log (button_irq_handler 100 demo_state) =
     [Gpio_set_value 5 True, Gpio_set_value 12 True, Gpio_set_value 20 False]"
    unfolding n v l using en g by simp
  show ?thesis
    using h1 h2 t v m o w B by blast
qed

section \<open>Numbers written to the attributes\<close>

lemma isdigit_plain: "isdigit c \<Longrightarrow> \<not> isspace c \<and> c \<noteq> CHR 0x00"
  by (auto simp: isdigit_def isspace_def)

lemma strtoull_digits:
  "\<forall>c \<in> set ds. isdigit c \<Longrightarrow> rest = [] \<or> \<not> isdigit (hd rest) \<Longrightarrow>
   strtoull acc (ds @ rest) = foldl (\<lambda>a c. a * 10 + digit_val c) acc ds"
proof (induction ds arbitrary: acc)
  case Nil
  then show ?case by (cases rest) auto
next
  case (Cons d ds)
  then show ?case by simp
qed

lemma c_str_digits:
  "\<forall>c \<in> set ds. isdigit c \<Longrightarrow> c_str (ds @ rest) = ds @ c_str rest"
  by (simp add: c_str_def takeWhile_append2 isdigit_plain)

lemma c_str_rest: "rest = [] \<or> \<not> isdigit (hd rest) \<Longrightarrow> c_str rest = [] \<or> \<not> isdigit (hd (c_str rest))"
  by (cases rest) (auto simp: c_str_def)

lemma ucast_narrow: "(ucast (ucast (word_of_nat n :: 64 word) :: u32) :: u8) = word_of_nat n"
  by (rule bit_word_eqI) (auto simp: bit_simps)

lemma sscanf_u_digits:
  assumes "ds \<noteq> []" and "\<forall>c \<in> set ds. isdigit c" and "rest = [] \<or> \<not> isdigit (hd rest)"
  shows "sscanf_u (ds @ rest) t = ucast (word_of_nat (decimal ds) :: 64 word)"
proof -
  obtain d ds' where ds: "ds = d # ds'" using assms(1) by (cases ds) auto
  have d: "isdigit d" "\<not> isspace d" using assms(2) ds isdigit_plain by auto
  have st: "strtoull 0 (d # ds' @ c_str rest) = decimal ds"
    using strtoull_digits [OF assms(2) c_str_rest [OF assms(3)], of 0] ds
    by (simp add: decimal_def)
  have cs: "c_str (ds @ rest) = d # ds' @ c_str rest"
    using c_str_digits [OF assms(2), of rest] ds by simp
  have "dropWhile isspace (c_str (ds @ rest)) = d # ds' @ c_str rest"
    unfolding cs using d by simp
  then show ?thesis
    unfolding sscanf_u_def using d st by simp
qed

lemma digit_char: "d < 10 \<Longrightarrow> isdigit (char_of (48 + d)) \<and> digit_val (char_of (48 + d)) = d"
  by (simp add: isdigit_def digit_val_def)

lemma decimal_snoc: "decimal (ds @ [c]) = decimal ds * 10 + digit_val c"
  by (simp add: decimal_def)

lemma digits_of_decimal:
  "digits_of t \<noteq> [] \<and> (\<forall>c \<in> set (digits_of t). isdigit c) \<and> decimal (digits_of t) = t"
proof (induction t rule: digits_of.induct)
  case (1 n)
  show ?case
  proof (cases "n < 10")
    case True
    then show ?thesis
      using digit_char [of n] by (subst (1 2 3) digits_of.simps) (simp add: decimal_def)
  next
    case False
    have "n mod 10 < 10" by simp
    note d = digit_char [OF this]
    from 1 [OF False] d show ?thesis
      using False by (subst (1 2 3) digits_of.simps) (simp add: decimal_snoc)
  qed
qed

text \<open>
  C10. When the text written to \<^verbatim>\<open>value\<close> or \<^verbatim>\<open>max_value\<close> starts with the decimal
  digits \<open>ds\<close> of a number (followed by nothing, or by anything that is not a digit,
  such as the newline a shell appends), the 8-bit field becomes that number modulo 256
  and the store function returns \<open>count\<close>, the value that reports success. By
  \<open>digits_of_decimal\<close> every number \<open>t\<close> has such a numeral.
\<close>

theorem value_store_truncates:
  assumes "ds \<noteq> []" and "\<forall>c \<in> set ds. isdigit c" and "rest = [] \<or> \<not> isdigit (hd rest)"
  shows "fst (value_store e (ds @ rest) count s) = int count \<and>
         unat (value_c (snd (value_store e (ds @ rest) count s))) = decimal ds mod 256 \<and>
         fst (max_value_store e (ds @ rest) count s) = int count \<and>
         unat (max_value (snd (max_value_store e (ds @ rest) count s))) = decimal ds mod 256"
  by (simp add: value_store_def max_value_store_def Let_def sscanf_u_digits [OF assms] ucast_narrow unat_of_nat)

theorem value_store_truncates_witness:
  "''300'' \<noteq> [] \<and>
   fst (value_store (board 0) (''300'' @ [CHR 0x0A]) 4 (init_state False)) = 4 \<and>
   unat (value_c (snd (value_store (board 0) (''300'' @ [CHR 0x0A]) 4 (init_state False)))) = 44 \<and>
   fst (max_value_store (board 0) (''300'' @ [CHR 0x0A]) 4 (init_state False)) = 4 \<and>
   unat (max_value (snd (max_value_store (board 0) (''300'' @ [CHR 0x0A]) 4 (init_state False)))) = 44"
proof -
  have h1: "''300'' \<noteq> []" by simp
  have h2: "\<forall>c \<in> set ''300''. isdigit c" by code_simp
  have h3: "[CHR 0x0A] = [] \<or> \<not> isdigit (hd [CHR 0x0A])" by code_simp
  have d: "decimal ''300'' mod 256 = 44" by code_simp
  show ?thesis
    using value_store_truncates [OF h1 h2 h3, of "board 0" 4 "init_state False"] unfolding d by simp
qed

section \<open>The descriptor scan\<close>

lemma split_commas_hd:
  "\<exists>f fs. split_commas cur d = f # fs \<and> length cur \<le> length f"
proof (induction d arbitrary: cur)
  case Nil
  then show ?case by simp
next
  case (Cons c d)
  obtain f fs where "split_commas (cur @ [c]) d = f # fs" "length (cur @ [c]) \<le> length f"
    using Cons [of "cur @ [c]"] by blast
  then show ?case by auto
qed

lemma add_led_count:
  "unat (led_count s) < 8 \<Longrightarrow> unat (led_count (add_led e digs s)) = Suc (unat (led_count s))"
proof -
  assume "unat (led_count s) < 8"
  then have "unat (led_count s) + unat (1 :: u8) < 2 ^ LENGTH(8)" by simp
  then have "unat (led_count s + 1) = unat (led_count s) + unat (1 :: u8)"
    by (simp only: unat_add_lem)
  then show ?thesis by (simp add: add_led_def Let_def)
qed

lemma full_iff: "(MAX_LEDS \<le> led_count s) = (8 \<le> unat (led_count s))"
  by (simp add: MAX_LEDS_def word_le_nat_alt)

lemma scan_desc_fields:
  assumes "unat (led_count s) \<le> 8" and "length digs \<le> 3"
  shows "if \<exists>f \<in> set (take (9 - unat (led_count s)) (split_commas digs d)). bad_field f
         then \<exists>s'. scan_desc e d digs s = Scan_return (- EINVAL) s' \<and> led_count s' = 0
         else scan_desc e d digs s =
                Scan_break (fold (add_led e) (take (8 - unat (led_count s)) (split_commas digs d)) s)"
  using assms
proof (induction d arbitrary: digs s)
  case Nil
  have "take (9 - unat (led_count s)) [digs] = [digs]"
    using Nil by (cases "9 - unat (led_count s)") simp_all
  moreover have "8 - unat (led_count s) = 0 \<longleftrightarrow> 8 \<le> unat (led_count s)" by auto
  ultimately show ?case
    using Nil by (auto simp: bad_field_def GPIO_MAX_DIGITS_def full_iff)
next
  case (Cons c rest)
  let ?k = "unat (led_count s)"
  have pos: "9 - ?k = Suc (8 - ?k)" using Cons.prems by simp
  show ?case
  proof (cases "c = CHR 0x00")
    case True
    have "8 - ?k = 0 \<longleftrightarrow> 8 \<le> ?k" by auto
    then show ?thesis
      using True Cons.prems pos by (auto simp: bad_field_def GPIO_MAX_DIGITS_def full_iff)
  next
    case nonul: False
    show ?thesis
    proof (cases "c = CHR '',''")
      case True
      show ?thesis
      proof (cases "digs = []")
        case True
        then show ?thesis using \<open>c = CHR '',''\<close> pos by (simp add: bad_field_def)
      next
        case False
        then have ok: "\<not> bad_field digs"
          using Cons.prems by (simp add: bad_field_def GPIO_MAX_DIGITS_def)
        show ?thesis
        proof (cases "8 \<le> ?k")
          case True
          then have "8 - ?k = 0" by simp
          then show ?thesis
            using \<open>c = CHR '',''\<close> False ok pos True by (simp add: full_iff)
        next
          case notfull: False
          let ?s1 = "add_led e digs s"
          have k1: "unat (led_count ?s1) = Suc ?k"
            using notfull by (simp add: add_led_count)
          then have le: "unat (led_count ?s1) \<le> 8" using notfull by simp
          have sc: "scan_desc e (c # rest) digs s = scan_desc e rest [] ?s1"
            using \<open>c = CHR '',''\<close> False notfull by (simp add: full_iff)
          have t9: "take (9 - ?k) (split_commas digs (c # rest))
                      = digs # take (9 - unat (led_count ?s1)) (split_commas [] rest)"
            using \<open>c = CHR '',''\<close> pos k1 by simp
          have "8 - ?k = Suc (8 - unat (led_count ?s1))" using notfull k1 by simp
          then have t8: "take (8 - ?k) (split_commas digs (c # rest))
                      = digs # take (8 - unat (led_count ?s1)) (split_commas [] rest)"
            using \<open>c = CHR '',''\<close> by simp
          from Cons.IH [of ?s1 "[]", OF le] show ?thesis
            unfolding sc t9 t8 using ok by simp
        qed
      qed
    next
      case other: False
      show ?thesis
      proof (cases "3 \<le> length digs")
        case True
        obtain f fs where f: "split_commas (digs @ [c]) rest = f # fs"
          and "length (digs @ [c]) \<le> length f"
          using split_commas_hd by blast
        then have "bad_field f" using True by (simp add: bad_field_def GPIO_MAX_DIGITS_def)
        then show ?thesis
          using nonul other True f pos by (simp add: GPIO_MAX_DIGITS_def)
      next
        case False
        then have len: "length (digs @ [c]) \<le> 3" by simp
        have sc: "scan_desc e (c # rest) digs s = scan_desc e rest (digs @ [c]) s"
          using nonul other False by (simp add: GPIO_MAX_DIGITS_def)
        have sp: "split_commas digs (c # rest) = split_commas (digs @ [c]) rest"
          using nonul other by simp
        from Cons.IH [of s "digs @ [c]", OF Cons.prems(1) len] show ?thesis
          unfolding sc sp .
      qed
    qed
  qed
qed

lemma fold_add_led:
  assumes "unat (led_count s) + length fs \<le> 8" and "length (led_values s) = 8"
  shows "unat (led_count (fold (add_led e) fs s)) = unat (led_count s) + length fs \<and>
         length (led_values (fold (add_led e) fs s)) = 8 \<and>
         (\<forall>i < length fs. led_values (fold (add_led e) fs s) ! (unat (led_count s) + i) =
             \<lparr>on = False, gpio = ucast (sscanf_u (fs ! i) (uninit_ttt e (unat (led_count s) + i)))\<rparr>) \<and>
         (\<forall>j < unat (led_count s). led_values (fold (add_led e) fs s) ! j = led_values s ! j)"
  using assms
proof (induction fs arbitrary: s)
  case Nil
  then show ?case by simp
next
  case (Cons f fs)
  let ?k = "unat (led_count s)"
  let ?s1 = "add_led e f s"
  have k: "?k < 8" using Cons.prems by simp
  have k1: "unat (led_count ?s1) = Suc ?k" using k by (simp add: add_led_count)
  have lv1: "led_values ?s1 = (led_values s)[?k := \<lparr>on = False, gpio = ucast (sscanf_u f (uninit_ttt e ?k))\<rparr>]"
    by (simp add: add_led_def Let_def)
  have len1: "length (led_values ?s1) = 8" using Cons.prems lv1 by simp
  have "unat (led_count ?s1) + length fs \<le> 8" using Cons.prems k1 by simp
  note IH = Cons.IH [OF this len1]
  have a: "unat (led_count (fold (add_led e) (f # fs) s)) = ?k + length (f # fs)"
    using IH k1 by simp
  have b: "length (led_values (fold (add_led e) (f # fs) s)) = 8"
    using IH by simp
  have c: "led_values (fold (add_led e) (f # fs) s) ! (?k + i) =
             \<lparr>on = False, gpio = ucast (sscanf_u ((f # fs) ! i) (uninit_ttt e (?k + i)))\<rparr>"
    if "i < length (f # fs)" for i
  proof (cases i)
    case 0
    have "led_values (fold (add_led e) fs ?s1) ! ?k = led_values ?s1 ! ?k"
      using IH k1 by simp
    then show ?thesis using 0 lv1 k Cons.prems by simp
  next
    case (Suc i')
    then have "i' < length fs" using that by simp
    then have "led_values (fold (add_led e) fs ?s1) ! (unat (led_count ?s1) + i') =
             \<lparr>on = False, gpio = ucast (sscanf_u (fs ! i') (uninit_ttt e (unat (led_count ?s1) + i')))\<rparr>"
      using IH by blast
    then show ?thesis using Suc k1 by simp
  qed
  have d: "led_values (fold (add_led e) (f # fs) s) ! j = led_values s ! j" if "j < ?k" for j
  proof -
    have "led_values (fold (add_led e) fs ?s1) ! j = led_values ?s1 ! j"
      using IH that k1 by simp
    then show ?thesis using that lv1 by simp
  qed
  show ?case using a b c d by blast
qed

text \<open>
  C4, as the code has it. The claim says that everything after the eighth field is
  ignored, whatever it is. The scan looks at the ninth field before it notices that the
  array is full: an empty or over-long ninth field is still an error. So: when one of
  the first nine fields is empty or longer than three characters, \<^verbatim>\<open>assign_leds\<close>
  returns \<open>-EINVAL\<close> with \<open>led_count = 0\<close>; otherwise the scan ends without error with
  the first \<open>min 8 n\<close> of the \<open>n\<close> fields stored in order, each converted by
  \<^verbatim>\<open>sscanf\<close> and cut to eight bits, and \<^verbatim>\<open>assign_leds\<close> goes on to
  \<^verbatim>\<open>setup_max_possible\<close> and the pins. Nothing after the ninth field matters.
\<close>

theorem assign_leds_scan_first_nine:
  assumes "led_count s = 0" and "length (led_values s) = 8"
  shows "if \<exists>f \<in> set (take 9 (fields d)). bad_field f
         then fst (assign_leds e d s) = - EINVAL \<and> led_count (snd (assign_leds e d s)) = 0
         else \<exists>s1. scan_desc e d [] s = Scan_break s1 \<and>
                unat (led_count s1) = min 8 (length (fields d)) \<and>
                (\<forall>i < min 8 (length (fields d)).
                    led_values s1 ! i =
                      \<lparr>on = False, gpio = ucast (sscanf_u (fields d ! i) (uninit_ttt e i))\<rparr>) \<and>
                assign_leds e d s =
                  (let s2 = setup_max_possible s1
                   in if enable_gpio s2 then init_leds e 0 s2 else (0, s2))"
proof -
  have k: "unat (led_count s) \<le> 8" "unat (led_count s) = 0" using assms by simp_all
  note S = scan_desc_fields [OF k(1), of "[]" d e, unfolded k(2), simplified, folded fields_def]
  show ?thesis
  proof (cases "\<exists>f \<in> set (take 9 (fields d)). bad_field f")
    case True
    then obtain s' where "scan_desc e d [] s = Scan_return (- EINVAL) s'" "led_count s' = 0"
      using S by auto
    then show ?thesis using True assms by (simp add: assign_leds_def)
  next
    case False
    let ?fs = "take 8 (fields d)"
    let ?s1 = "fold (add_led e) ?fs s"
    have sc: "scan_desc e d [] s = Scan_break ?s1" using S False by auto
    have "unat (led_count s) + length ?fs \<le> 8" using k by simp
    note F = fold_add_led [OF this assms(2), of e, unfolded k(2), simplified]
    show ?thesis using False sc F assms by (auto simp: assign_leds_def Let_def)
  qed
qed

theorem assign_leds_scan_first_nine_witness:
  "led_count (init_state False) = 0 \<and> length (led_values (init_state False)) = 8 \<and>
   fields ''5,12,200'' = [''5'', ''12'', ''200''] \<and>
   (\<exists>s1. scan_desc (board 0) ''5,12,200'' [] (init_state False) = Scan_break s1 \<and>
      unat (led_count s1) = 3 \<and>
      led_values s1 ! 0 = \<lparr>on = False, gpio = 5\<rparr> \<and>
      led_values s1 ! 1 = \<lparr>on = False, gpio = 12\<rparr> \<and>
      led_values s1 ! 2 = \<lparr>on = False, gpio = 200\<rparr>) \<and>
   fields ''5,,12'' = [''5'', [], ''12''] \<and>
   fst (assign_leds (board 0) ''5,,12'' (init_state False)) = - EINVAL \<and>
   led_count (snd (assign_leds (board 0) ''5,,12'' (init_state False))) = 0 \<and>
   fields ''1234'' = [''1234''] \<and>
   fst (assign_leds (board 0) ''1234'' (init_state False)) = - EINVAL \<and>
   led_count (snd (assign_leds (board 0) ''1234'' (init_state False))) = 0"
proof -
  have h1: "led_count (init_state False) = 0" by (simp add: init_state_def)
  have h2: "length (led_values (init_state False)) = 8" by (simp add: init_state_def)
  note T = assign_leds_scan_first_nine [OF h1 h2, of _ "board 0"]
  have f1: "fields ''5,12,200'' = [''5'', ''12'', ''200'']" by code_simp
  have f2: "fields ''5,,12'' = [''5'', [], ''12'']" by code_simp
  have f3: "fields ''1234'' = [''1234'']" by code_simp
  have v1: "sscanf_u ''5'' 0 = 5" "sscanf_u ''12'' 0 = 12" "sscanf_u ''200'' 0 = 200"
    by code_simp+
  have u: "uninit_ttt (board 0) = (\<lambda>i. 0)" by (simp add: board_def)
  have nb: "\<not> (\<exists>f \<in> set (take 9 (fields ''5,12,200'')). bad_field f)" by code_simp
  have b2: "\<exists>f \<in> set (take 9 (fields ''5,,12'')). bad_field f" by code_simp
  have b3: "\<exists>f \<in> set (take 9 (fields ''1234'')). bad_field f" by code_simp
  obtain s1 where sc: "scan_desc (board 0) ''5,12,200'' [] (init_state False) = Scan_break s1"
    and cnt: "unat (led_count s1) = min 8 (length (fields ''5,12,200''))"
    and lv: "\<And>i. i < min 8 (length (fields ''5,12,200'')) \<Longrightarrow> led_values s1 ! i =
       \<lparr>on = False, gpio = ucast (sscanf_u (fields ''5,12,200'' ! i) (uninit_ttt (board 0) i))\<rparr>"
    using T [of "''5,12,200''", unfolded if_not_P [OF nb]] by blast
  have c: "unat (led_count s1) = 3" using cnt by (simp add: f1)
  have l0: "led_values s1 ! 0 = \<lparr>on = False, gpio = 5\<rparr>"
    using lv [of 0] by (simp add: f1 v1 u)
  have l1: "led_values s1 ! 1 = \<lparr>on = False, gpio = 12\<rparr>"
    using lv [of 1] by (simp add: f1 v1 u)
  have l2: "led_values s1 ! 2 = \<lparr>on = False, gpio = 200\<rparr>"
    using lv [of 2] by (simp add: f1 v1 u)
  note e2 = T [of "''5,,12''", unfolded if_P [OF b2]]
  note e3 = T [of "''1234''", unfolded if_P [OF b3]]
  show ?thesis
    using h1 h2 f1 f2 f3 sc c l0 l1 l2 e2 e3 by blast
qed

text \<open>
  C4 as stated fails: after eight well-formed fields, an empty ninth field or a ninth
  field of four digits makes the whole descriptor an error and leaves no pin assigned.
\<close>

theorem assign_leds_ninth_field_checked:
  "fst (assign_leds (board 0) ''1,2,3,4,5,6,7,8,,9'' (init_state False)) = - EINVAL \<and>
   led_count (snd (assign_leds (board 0) ''1,2,3,4,5,6,7,8,,9'' (init_state False))) = 0 \<and>
   fst (assign_leds (board 0) ''1,2,3,4,5,6,7,8,1234'' (init_state False)) = - EINVAL \<and>
   led_count (snd (assign_leds (board 0) ''1,2,3,4,5,6,7,8,1234'' (init_state False))) = 0"
  by code_simp

section \<open>Acquiring the pins\<close>

lemma release_loop_hw: "\<exists>cs. for_loop j i release_led s = hw cs s"
  by (rule for_loop_hw) (auto simp: release_led_def)

text \<open>No path through the initialisation loop, the failing one included, resets \<open>led_count\<close>.\<close>

lemma init_leds_led_count: "led_count (snd (init_leds e i s)) = led_count s"
proof (induction e i s rule: init_leds.induct)
  case (1 e i s)
  obtain cs where r: "for_loop (unat (uninit_j e)) i release_led s = hw cs s"
    using release_loop_hw by blast
  show ?case
  proof (cases "i < unat (led_count s) \<and> gpio_is_valid e (gpio (led_values s ! i))")
    case True
    then show ?thesis using 1 by (subst init_leds.simps) simp
  next
    case False
    then show ?thesis using r by (subst init_leds.simps) (auto simp: zero_counters_def)
  qed
qed

text \<open>
  C1. The claim: when the first invalid pin is at index \<open>k\<close>, \<^verbatim>\<open>assign_leds\<close> releases
  the pins at indices \<open>0..k-1\<close>, returns an error and leaves the pin count 0. The code
  starts its release loop at the uninitialised \<^verbatim>\<open>j\<close> and never resets
  \<^verbatim>\<open>led_count\<close>. On the descriptor \<open>5,6,200,7\<close> with pin 200 invalid and \<^verbatim>\<open>j\<close>
  holding 1, it returns \<open>-ENODEV\<close> but releases only pin 6, leaves pin 5 configured,
  and keeps \<open>led_count = 4\<close>; the count stays 4 also when \<^verbatim>\<open>j\<close> holds 0.
\<close>

theorem assign_leds_rollback_incomplete:
  "fst (assign_leds (board 1) ''5,6,200,7'' (init_state True)) = - ENODEV \<and>
   led_count (snd (assign_leds (board 1) ''5,6,200,7'' (init_state True))) = 4 \<and>
   hw_log (snd (assign_leds (board 1) ''5,6,200,7'' (init_state True))) =
     [Gpio_direction_output 5 False, Gpio_direction_output 6 False,
      Gpio_set_value 6 False, Gpio_free 6] \<and>
   configured_pins (hw_log (snd (assign_leds (board 1) ''5,6,200,7'' (init_state True)))) [] = [5] \<and>
   led_count (snd (assign_leds (board 0) ''5,6,200,7'' (init_state True))) = 4"
  by code_simp

section \<open>The invariant of the counter\<close>

lemma increment_maybe_wrap_inv: "counter_inv (snd (increment_maybe_wrap s))"
proof (cases "value_c s < max_possible s")
  case True
  then have "value_c s + 1 \<le> max_possible s" by (rule inc_le)
  then show ?thesis using True by (simp add: increment_maybe_wrap_def Let_def counter_inv_def)
next
  case False
  then show ?thesis by (simp add: increment_maybe_wrap_def counter_inv_def)
qed

lemma setup_max_possible_inv: "counter_inv (setup_max_possible s)"
  by (simp add: setup_max_possible_eq counter_inv_def not_less)

lemma set_leds_from_value_inv: "counter_inv (set_leds_from_value s) = counter_inv s"
  by (simp add: counter_inv_def)

lemma add_led_counters [simp]:
  "value_c (add_led e digs s) = value_c s" "max_possible (add_led e digs s) = max_possible s"
  by (simp_all add: add_led_def Let_def)

lemma scan_desc_counters:
  "(scan_desc e d digs s = Scan_return rc s' \<or> scan_desc e d digs s = Scan_break s') \<Longrightarrow>
   value_c s' = value_c s \<and> max_possible s' = max_possible s"
proof (induction e d digs s rule: scan_desc.induct)
  case (1 e digs s)
  then show ?case by (auto split: if_splits)
next
  case (2 e c rest digs s)
  then show ?case by (auto split: if_splits)
qed

lemma init_leds_inv: "counter_inv s \<Longrightarrow> counter_inv (snd (init_leds e i s))"
proof (induction e i s rule: init_leds.induct)
  case (1 e i s)
  show ?case
  proof (cases "i < unat (led_count s)")
    case True
    show ?thesis
    proof (cases "gpio_is_valid e (gpio (led_values s ! i))")
      case valid: True
      have "counter_inv (hw [Gpio_direction_output (gpio (led_values s ! i)) False] s)"
        using 1(2) by (simp add: counter_inv_def)
      from 1(1) [OF True _ this] valid True show ?thesis
        by (subst init_leds.simps) simp
    next
      case False
      then show ?thesis using True
        by (subst init_leds.simps) (simp add: zero_counters_def counter_inv_def)
    qed
  next
    case False
    then show ?thesis using 1(2) by (subst init_leds.simps) simp
  qed
qed

lemma assign_leds_inv: "counter_inv s \<Longrightarrow> counter_inv (snd (assign_leds e d s))"
proof -
  assume inv: "counter_inv s"
  show ?thesis
  proof (cases "scan_desc e d [] s")
    case (Scan_return rc s1)
    then have "counter_inv s1" using scan_desc_counters [of e d "[]" s rc s1] inv
      by (simp add: counter_inv_def)
    then show ?thesis using Scan_return inv by (simp add: assign_leds_def)
  next
    case (Scan_break s1)
    then show ?thesis
      using inv init_leds_inv [OF setup_max_possible_inv] setup_max_possible_inv
      by (simp add: assign_leds_def Let_def)
  qed
qed

lemma unassign_leds_inv: "counter_inv (snd (unassign_leds s)) = counter_inv s"
proof -
  obtain cs where "for_loop 0 (unat (led_count s)) unassign_led s = hw cs s"
    using for_loop_hw [of unassign_led 0 "unat (led_count s)" s]
    by (auto simp: unassign_led_def Let_def)
  then show ?thesis by (simp add: unassign_leds_def Let_def counter_inv_def)
qed

lemma button_counters [simp]:
  "value_c (snd (assign_increment_button e s)) = value_c s"
  "max_possible (snd (assign_increment_button e s)) = max_possible s"
  "value_c (snd (unassign_increment_button s)) = value_c s"
  "max_possible (snd (unassign_increment_button s)) = max_possible s"
  by (simp_all add: assign_increment_button_def unassign_increment_button_def Let_def)

text \<open>
  C7, as the code has it. The claim says every operation keeps \<open>value \<le> max_possible\<close>.
  The write to the \<^verbatim>\<open>value\<close> attribute stores what was written without comparing it
  with \<open>max_possible\<close>, so it keeps the invariant exactly when the number written, cut
  to eight bits, is at most \<open>max_possible\<close>. Every other operation keeps it.
\<close>

theorem counter_inv_preserved:
  "(counter_inv s \<and> \<not> is_value_store op \<longrightarrow> counter_inv (run_op e op s)) \<and>
   counter_inv (run_op e (Op_value_store buf n) s) =
     ((ucast (sscanf_u buf (uninit_t e)) :: u8) \<le> max_possible s)"
proof -
  have a: "counter_inv (run_op e op s)" if "counter_inv s" and "\<not> is_value_store op"
  proof (cases op)
    case (Op_value_store x1 x2)
    then show ?thesis using that by (simp add: is_value_store_def)
  next
    case (Op_button_irq now)
    then show ?thesis using that increment_maybe_wrap_inv
      by (simp add: button_irq_handler_def Let_def set_leds_from_value_inv)
  next
    case (Op_gpio_leds_store x1 x2)
    then show ?thesis using that
      by (simp add: gpio_leds_store_def Let_def set_leds_from_value_inv assign_leds_inv unassign_leds_inv)
  next
    case (Op_gpio_button_increment_store x1 x2)
    then show ?thesis using that
      by (simp add: gpio_button_increment_store_def Let_def counter_inv_def)
  qed (use that in \<open>simp_all add: increment_maybe_wrap_inv setup_max_possible_inv
        assign_leds_inv unassign_leds_inv set_leds_from_value_inv increment_store_def
        max_value_store_def Let_def\<close>, simp_all add: counter_inv_def zero_counters_def)
  have b: "counter_inv (run_op e (Op_value_store buf n) s) =
     ((ucast (sscanf_u buf (uninit_t e)) :: u8) \<le> max_possible s)"
    by (simp add: value_store_def Let_def counter_inv_def)
  show ?thesis using a b by blast
qed

theorem counter_inv_preserved_witness:
  "counter_inv ((init_state False)\<lparr>value_c := 7, max_possible := 7\<rparr>) \<and>
   \<not> is_value_store (Op_increment_store [] 0) \<and>
   counter_inv (run_op (board 0) (Op_increment_store [] 0) ((init_state False)\<lparr>value_c := 7, max_possible := 7\<rparr>))"
proof -
  let ?s = "(init_state False)\<lparr>value_c := 7, max_possible := 7\<rparr>"
  have h1: "counter_inv ?s" by (simp add: counter_inv_def)
  have h2: "\<not> is_value_store (Op_increment_store [] 0)" by (simp add: is_value_store_def)
  show ?thesis
    using h1 h2 counter_inv_preserved [of ?s "Op_increment_store [] 0" "board 0"] by blast
qed

text \<open>
  C7 as stated fails: with three LEDs (\<open>max_possible = 7\<close>) and \<open>value = 0\<close>, writing 200
  to the \<^verbatim>\<open>value\<close> attribute leaves \<open>value = 200 > max_possible\<close>.
\<close>

theorem value_store_breaks_counter_inv:
  "counter_inv ((init_state False)\<lparr>led_count := 3, max_possible := 7\<rparr>) \<and>
   \<not> counter_inv (run_op (board 0) (Op_value_store ''200'' 3) ((init_state False)\<lparr>led_count := 3, max_possible := 7\<rparr>))"
  by code_simp

section \<open>Assigning the button\<close>








text \<open>
  The state of C2 is reached from the initial one through the attributes alone: assign
  three LEDs, write 5 to \<^verbatim>\<open>value\<close>, increment.
\<close>

lemma override_then_increment:
  "value_c (run_op (board 0) Op_increment (run_op (board 0) (Op_value_store ''5'' 1)
      (run_op (board 0) (Op_gpio_leds_store ''1,2,3'' 5) (init_state False)))) = 6 \<and>
   max_value (run_op (board 0) Op_increment (run_op (board 0) (Op_value_store ''5'' 1)
      (run_op (board 0) (Op_gpio_leds_store ''1,2,3'' 5) (init_state False)))) = 1"
  by code_simp

end
